theory Spec2Isabelle
  imports Complex_Main "HOL-Library.Log_Nat"
begin

section \<open>JavaScript numbers\<close>

text \<open>
  Every number of the program is an IEEE 754 double. A finite double is modelled by the
  rational it denotes; the two infinities and NaN are constructors of their own. The two
  zeros are identified: the program never divides by a value that can be zero without a
  guard, and never prints the sign of a zero.
\<close>

datatype jsnum = Fin rat | PInf | NInf | NaN

text \<open>\<open>ilog2 x\<close> is the binary exponent of a positive rational: \<open>2^e \<le> x < 2^(e+1)\<close>.\<close>

definition ilog2 :: "rat \<Rightarrow> int" where
  "ilog2 x =
     (let (a, b) = quotient_of x;
          k = bitlen a - bitlen b
      in if 2 powi k \<le> x then k else k - 1)"

text \<open>Rounding to the nearest integer, a tie to the even one.\<close>

definition round_even :: "rat \<Rightarrow> int" where
  "round_even q =
     (let f = \<lfloor>q\<rfloor>; r = q - of_int f
      in if r < 1 / 2 then f
         else if 1 / 2 < r then f + 1
         else if even f then f else f + 1)"

text \<open>
  \<open>fl x\<close> is the double nearest to \<open>x\<close> (53 bits of precision, gradual underflow below
  \<open>2^-1022\<close>, ties to even), before the overflow test.
\<close>

definition fl_pos :: "rat \<Rightarrow> rat" where
  "fl_pos x =
     (let e = max (ilog2 x) (- 1022);
          u = 2 powi (e - 52)
      in of_int (round_even (x / u)) * u)"

definition fl :: "rat \<Rightarrow> rat" where
  "fl x = (if x = 0 then 0 else if 0 < x then fl_pos x else - fl_pos (- x))"

definition rnd :: "rat \<Rightarrow> jsnum" where
  "rnd x =
     (let y = fl x
      in if 2 ^ 1024 \<le> y then PInf
         else if y \<le> - (2 ^ 1024) then NInf
         else Fin y)"

text \<open>A numeric literal of the source text denotes the double nearest to it.\<close>

definition lit :: "rat \<Rightarrow> jsnum" where
  "lit x = rnd x"

text \<open>
  The length of an array, and a count of its elements: an integer below \<open>2^32\<close>, which
  a double holds exactly.
\<close>

definition num :: "nat \<Rightarrow> jsnum" where
  "num n = Fin (of_nat n)"

fun js_neg :: "jsnum \<Rightarrow> jsnum" where
  "js_neg (Fin a) = Fin (- a)"
| "js_neg PInf = NInf"
| "js_neg NInf = PInf"
| "js_neg NaN = NaN"

fun js_add :: "jsnum \<Rightarrow> jsnum \<Rightarrow> jsnum" where
  "js_add NaN _ = NaN"
| "js_add _ NaN = NaN"
| "js_add (Fin a) (Fin b) = rnd (a + b)"
| "js_add PInf NInf = NaN"
| "js_add NInf PInf = NaN"
| "js_add PInf _ = PInf"
| "js_add NInf _ = NInf"
| "js_add (Fin a) PInf = PInf"
| "js_add (Fin a) NInf = NInf"

definition js_sub :: "jsnum \<Rightarrow> jsnum \<Rightarrow> jsnum" where
  "js_sub a b = js_add a (js_neg b)"

fun js_mul :: "jsnum \<Rightarrow> jsnum \<Rightarrow> jsnum" where
  "js_mul NaN _ = NaN"
| "js_mul _ NaN = NaN"
| "js_mul (Fin a) (Fin b) = rnd (a * b)"
| "js_mul PInf (Fin b) = (if b = 0 then NaN else if 0 < b then PInf else NInf)"
| "js_mul NInf (Fin b) = (if b = 0 then NaN else if 0 < b then NInf else PInf)"
| "js_mul (Fin a) PInf = (if a = 0 then NaN else if 0 < a then PInf else NInf)"
| "js_mul (Fin a) NInf = (if a = 0 then NaN else if 0 < a then NInf else PInf)"
| "js_mul PInf PInf = PInf"
| "js_mul PInf NInf = NInf"
| "js_mul NInf PInf = NInf"
| "js_mul NInf NInf = PInf"

fun js_div :: "jsnum \<Rightarrow> jsnum \<Rightarrow> jsnum" where
  "js_div NaN _ = NaN"
| "js_div _ NaN = NaN"
| "js_div (Fin a) (Fin b) =
     (if b = 0 then (if a = 0 then NaN else if 0 < a then PInf else NInf)
      else rnd (a / b))"
| "js_div (Fin a) PInf = Fin 0"
| "js_div (Fin a) NInf = Fin 0"
| "js_div PInf (Fin b) = (if 0 \<le> b then PInf else NInf)"
| "js_div NInf (Fin b) = (if 0 \<le> b then NInf else PInf)"
| "js_div PInf _ = NaN"
| "js_div NInf _ = NaN"

text \<open>The order of the relational operators: every comparison with NaN is false.\<close>

fun js_lt :: "jsnum \<Rightarrow> jsnum \<Rightarrow> bool" where
  "js_lt NaN _ = False"
| "js_lt _ NaN = False"
| "js_lt (Fin a) (Fin b) = (a < b)"
| "js_lt (Fin a) PInf = True"
| "js_lt (Fin a) NInf = False"
| "js_lt PInf _ = False"
| "js_lt NInf NInf = False"
| "js_lt NInf _ = True"

definition js_gt :: "jsnum \<Rightarrow> jsnum \<Rightarrow> bool" where
  "js_gt a b = js_lt b a"



definition Math_max :: "jsnum \<Rightarrow> jsnum \<Rightarrow> jsnum" where
  "Math_max a b = (if a = NaN \<or> b = NaN then NaN else if js_lt a b then b else a)"

definition Math_min :: "jsnum \<Rightarrow> jsnum \<Rightarrow> jsnum" where
  "Math_min a b = (if a = NaN \<or> b = NaN then NaN else if js_lt b a then b else a)"

text \<open>\<open>Math.round\<close> rounds a tie towards plus infinity.\<close>

fun Math_round :: "jsnum \<Rightarrow> jsnum" where
  "Math_round (Fin a) = Fin (of_int \<lfloor>a + 1 / 2\<rfloor>)"
| "Math_round x = x"

fun Math_ceil :: "jsnum \<Rightarrow> jsnum" where
  "Math_ceil (Fin a) = Fin (of_int \<lceil>a\<rceil>)"
| "Math_ceil x = x"

fun Math_floor :: "jsnum \<Rightarrow> jsnum" where
  "Math_floor (Fin a) = Fin (of_int \<lfloor>a\<rfloor>)"
| "Math_floor x = x"

text \<open>Truthiness of a number, and \<open>a || b\<close> on numbers.\<close>

definition truthy :: "jsnum \<Rightarrow> bool" where
  "truthy a = (a \<noteq> Fin 0 \<and> a \<noteq> NaN)"

definition js_or :: "jsnum \<Rightarrow> jsnum \<Rightarrow> jsnum" where
  "js_or a b = (if truthy a then a else b)"

text \<open>
  \<open>Array.prototype.sort\<close> with a comparator: the sort is stable, and a comparator
  result of NaN counts as 0. Where the comparator is not a consistent order the language
  leaves the result to the implementation; the model is then the insertion sort below.
\<close>

fun js_insert :: "('a \<Rightarrow> 'a \<Rightarrow> jsnum) \<Rightarrow> 'a \<Rightarrow> 'a list \<Rightarrow> 'a list" where
  "js_insert cmp x [] = [x]"
| "js_insert cmp x (y # ys) =
     (if js_gt (cmp x y) (Fin 0) then y # js_insert cmp x ys else x # y # ys)"

definition js_sort :: "('a \<Rightarrow> 'a \<Rightarrow> jsnum) \<Rightarrow> 'a list \<Rightarrow> 'a list" where
  "js_sort cmp xs = foldr (js_insert cmp) xs []"

text \<open>\<open>xs.slice(0, n)\<close> and \<open>xs.slice(-n)\<close> for a natural number \<open>n\<close>.\<close>

definition slice_to :: "nat \<Rightarrow> 'a list \<Rightarrow> 'a list" where
  "slice_to n xs = take n xs"


section \<open>The parser (parser.ts)\<close>

subsection \<open>Untyped documents and the structural validator\<close>

text \<open>
  \<open>validatePlaywrightReport\<close> takes a value of type \<open>any\<close>: the result of
  \<open>JSON.parse\<close>. An object is the list of its properties, each name once.
\<close>

datatype json =
    JNull
  | JBool bool
  | JNum jsnum
  | JStr string
  | JArr "json list"
  | JObj "(string \<times> json) list"

text \<open>\<open>typeof v === 'object'\<close>, which holds of \<open>null\<close> and of arrays too.\<close>

fun typeof_object :: "json \<Rightarrow> bool" where
  "typeof_object JNull = True"
| "typeof_object (JArr _) = True"
| "typeof_object (JObj _) = True"
| "typeof_object _ = False"

fun json_truthy :: "json \<Rightarrow> bool" where
  "json_truthy JNull = False"
| "json_truthy (JBool b) = b"
| "json_truthy (JNum n) = truthy n"
| "json_truthy (JStr s) = (s \<noteq> [])"
| "json_truthy (JArr _) = True"
| "json_truthy (JObj _) = True"

text \<open>
  Reading a property of a value that is neither \<open>null\<close> nor \<open>undefined\<close>: \<open>None\<close> is
  \<open>undefined\<close>. None of the names read here (\<open>suites\<close>, \<open>specs\<close>, \<open>tests\<close>) is a
  property of an array, a string, a number or a boolean.
\<close>

fun get_prop :: "json \<Rightarrow> string \<Rightarrow> json option" where
  "get_prop (JObj kvs) k = map_of kvs k"
| "get_prop _ k = None"

text \<open>\<open>Array.isArray\<close> on the result of a property read.\<close>

fun as_array :: "json option \<Rightarrow> json list option" where
  "as_array (Some (JArr xs)) = Some xs"
| "as_array _ = None"

text \<open>\<open>s && Array.isArray(s.tests)\<close>\<close>

definition spec_has_tests :: "json \<Rightarrow> bool" where
  "spec_has_tests s = (json_truthy s \<and> as_array (get_prop s ''tests'') \<noteq> None)"


lemma size_map_of:
  "map_of kvs k = Some v \<Longrightarrow> size v + 2 \<le> size_list (size_prod (\<lambda>x. 0) size) kvs"
  by (induction kvs) (auto split: if_splits)

lemma size_member: "x \<in> set xs \<Longrightarrow> size x + 1 \<le> size_list size xs"
  by (induction xs) auto

lemma size_get_prop: "get_prop j k = Some v \<Longrightarrow> size v + 3 \<le> size j"
  by (cases j) (auto dest: size_map_of)

lemma size_as_array:
  assumes "as_array (get_prop j k) = Some xs" and "x \<in> set xs"
  shows "size x + 5 \<le> size j"
proof -
  from assms(1) have "get_prop j k = Some (JArr xs)"
    by (cases "get_prop j k" rule: as_array.cases) auto
  then have "size (JArr xs) + 3 \<le> size j" by (rule size_get_prop)
  with size_member [OF assms(2)] show ?thesis by simp
qed

text \<open>
  The loop over \<open>report.suites\<close> returns \<open>false\<close> at the first suite that fails and
  \<open>true\<close> when none does; it has no other effect, so it is \<open>list_all\<close>. The recursive
  call is on the fresh object \<open>{ suites: [child] }\<close>, as in the source.
\<close>

function validatePlaywrightReport :: "json \<Rightarrow> bool" where
  "validatePlaywrightReport report =
     (if \<not> json_truthy report \<or> \<not> typeof_object report then False
      else case as_array (get_prop report ''suites'') of
        None \<Rightarrow> False
      | Some suites \<Rightarrow>
          list_all (\<lambda>suite.
            if \<not> json_truthy suite \<or> \<not> typeof_object suite then False
            else
              let specs = get_prop suite ''specs'';
                  childSuites = get_prop suite ''suites'';
                  hasSpecs = (case as_array specs of
                                None \<Rightarrow> False
                              | Some ss \<Rightarrow> list_ex spec_has_tests ss);
                  hasNested = (case as_array childSuites of
                                 None \<Rightarrow> False
                               | Some cs \<Rightarrow> cs \<noteq> [])
              in if \<not> hasSpecs \<and> \<not> hasNested then True
                 else if hasNested
                   then list_all
                          (\<lambda>child. validatePlaywrightReport (JObj [(''suites'', JArr [child])]))
                          (case as_array childSuites of None \<Rightarrow> [] | Some cs \<Rightarrow> cs)
                   else True) suites)"
  by pat_completeness auto
termination
proof (relation "measure size", goal_cases)
  case 1
  show ?case by simp
next
  case (2 report suites suite specs childSuites hasSpecs hasNested child)
  then show ?case
    by (auto split: option.splits dest!: size_as_array)
qed

declare validatePlaywrightReport.simps [simp del]

subsection \<open>The typed report tree\<close>

text \<open>
  \<open>parsePlaywrightReport\<close> takes a \<open>PlaywrightReport\<close>. An optional property is an
  \<open>option\<close>; \<open>tests\<close> and \<open>results\<close> are optional too, since the code guards both.
  The test node carries the \<open>file\<close>, \<open>line\<close> and \<open>column\<close> that the code reads
  through a cast.
\<close>

datatype err = Err (message: "string option") (stack: "string option")






record TestResult =
  t_title :: string
  t_status :: string
  t_duration :: jsnum
  t_retries :: jsnum
  t_browser :: "string option"
  t_suite :: "string option"
  t_error :: "string option"
  t_errorStack :: "string option"
  t_file :: "string option"
  t_line :: "jsnum option"
  t_column :: "jsnum option"

text \<open>
  The \<open>steps\<close> of a record (the trimmed, non-empty \<open>stdout\<close> texts of the last
  attempt) are left out: no other field and no number of the report depends on them.
\<close>

record GroupStats =
  g_key :: string
  g_total :: jsnum
  g_passed :: jsnum
  g_failed :: jsnum
  g_skipped :: jsnum
  g_timedOut :: jsnum
  g_flaky :: jsnum
  g_passRate :: jsnum
  g_duration :: jsnum

text \<open>
  \<open>BrowserStats\<close> and \<open>SuiteStats\<close> differ in the name of their key only
  (\<open>browser\<close>, \<open>suite\<close>): both are \<open>GroupStats\<close>, the key in \<open>g_key\<close>.
\<close>

record ReportData =
  totalTests :: jsnum
  passed :: jsnum
  failed :: jsnum
  skipped :: jsnum
  flaky :: jsnum
  totalDuration :: jsnum
  tests :: "TestResult list option"
  suites :: "string list option"
  browsers :: "string list option"
  browserStats :: "GroupStats list option"
  suiteStats :: "GroupStats list option"
















text \<open>
  A \<open>Map\<close> with string keys keeps the order of first insertion: \<open>map_set\<close> replaces
  the value of a key in place and appends a new key.
\<close>

fun map_set :: "'k \<Rightarrow> 'v \<Rightarrow> ('k \<times> 'v) list \<Rightarrow> ('k \<times> 'v) list" where
  "map_set k v [] = [(k, v)]"
| "map_set k v (p # ps) = (if fst p = k then (k, v) # ps else p # map_set k v ps)"

definition map_get :: "('k \<times> 'v) list \<Rightarrow> 'k \<Rightarrow> 'v option" where
  "map_get m k = map_of m k"


text \<open>\<open>t.retries > 0 && t.status === 'passed'\<close>\<close>

definition is_flaky :: "TestResult \<Rightarrow> bool" where
  "is_flaky t = (js_gt (t_retries t) (Fin 0) \<and> t_status t = ''passed'')"


text \<open>
  The expression \<open>t > 0 ? Math.round((a / t) * 100) : 0\<close>, which the source writes out
  at each rate.
\<close>

definition percent_of :: "jsnum \<Rightarrow> jsnum \<Rightarrow> jsnum" where
  "percent_of a t =
     (if js_gt t (Fin 0) then Math_round (js_mul (js_div a t) (Fin 100)) else Fin 0)"









section \<open>The statistics (statistics.ts)\<close>

record DurationByStatus =
  d_passed :: jsnum
  d_failed :: jsnum
  d_skipped :: jsnum

record DurationRanges =
  fast :: jsnum
  medium :: jsnum
  slow :: jsnum
  verySlow :: jsnum

record Statistics =
  passRate :: jsnum
  failRate :: jsnum
  skipRate :: jsnum
  averageDuration :: jsnum
  maxDuration :: jsnum
  minDuration :: jsnum
  durationByStatus :: DurationByStatus
  retriesDistribution :: "(jsnum \<times> jsnum) list"
  durationRanges :: DurationRanges
  failedTests :: "TestResult list"
  flakyTests :: "TestResult list"
  slowestTests :: "TestResult list"

text \<open>The variables of the first loop of \<open>calculateStatistics\<close>.\<close>

record stat_acc =
  a_durationByStatus :: DurationByStatus
  a_retriesMap :: "(jsnum \<times> jsnum) list"
  a_maxDuration :: jsnum
  a_minDuration :: jsnum

definition add_if :: "bool \<Rightarrow> jsnum \<Rightarrow> jsnum \<Rightarrow> jsnum" where
  "add_if c n d = (if c then js_add n d else n)"

text \<open>\<open>m.get(k) || 0\<close> and \<open>obj[k] || 0\<close>: 0 for a missing key too.\<close>

definition get_or_zero :: "('k \<times> jsnum) list \<Rightarrow> 'k \<Rightarrow> jsnum" where
  "get_or_zero m k = (case map_get m k of None \<Rightarrow> Fin 0 | Some c \<Rightarrow> js_or c (Fin 0))"

definition stat_step :: "TestResult \<Rightarrow> stat_acc \<Rightarrow> stat_acc" where
  "stat_step test a =
     (let d = a_durationByStatus a
      in \<lparr> a_durationByStatus =
             \<lparr> d_passed = add_if (t_status test = ''passed'') (d_passed d) (t_duration test),
               d_failed = add_if (t_status test = ''failed'') (d_failed d) (t_duration test),
               d_skipped = add_if (t_status test = ''skipped'') (d_skipped d) (t_duration test) \<rparr>,
           a_retriesMap =
             map_set (t_retries test)
               (js_add (get_or_zero (a_retriesMap a) (t_retries test)) (Fin 1)) (a_retriesMap a),
           a_maxDuration = Math_max (a_maxDuration a) (t_duration test),
           a_minDuration = Math_min (a_minDuration a) (t_duration test) \<rparr>)"

definition range_step :: "TestResult \<Rightarrow> DurationRanges \<Rightarrow> DurationRanges" where
  "range_step test r =
     (if js_lt (t_duration test) (Fin 1000) then r \<lparr> fast := js_add (fast r) (Fin 1) \<rparr>
      else if js_lt (t_duration test) (Fin 5000) then r \<lparr> medium := js_add (medium r) (Fin 1) \<rparr>
      else if js_lt (t_duration test) (Fin 15000) then r \<lparr> slow := js_add (slow r) (Fin 1) \<rparr>
      else r \<lparr> verySlow := js_add (verySlow r) (Fin 1) \<rparr>)"

definition by_duration_desc :: "TestResult \<Rightarrow> TestResult \<Rightarrow> jsnum" where
  "by_duration_desc a b = js_sub (t_duration b) (t_duration a)"

definition emptyStatistics :: Statistics where
  "emptyStatistics =
     \<lparr> passRate = Fin 0, failRate = Fin 0, skipRate = Fin 0, averageDuration = Fin 0,
       maxDuration = Fin 0, minDuration = Fin 0,
       durationByStatus = \<lparr> d_passed = Fin 0, d_failed = Fin 0, d_skipped = Fin 0 \<rparr>,
       retriesDistribution = [],
       durationRanges = \<lparr> fast = Fin 0, medium = Fin 0, slow = Fin 0, verySlow = Fin 0 \<rparr>,
       failedTests = [], flakyTests = [], slowestTests = [] \<rparr>"

text \<open>The argument is \<open>None\<close> for \<open>null\<close> and \<open>undefined\<close>.\<close>

definition calculateStatistics :: "ReportData option \<Rightarrow> Statistics" where
  "calculateStatistics data =
     (case data of
        None \<Rightarrow> emptyStatistics
      | Some d \<Rightarrow>
         (case tests d of
            None \<Rightarrow> emptyStatistics
          | Some ts \<Rightarrow>
              if length ts = 0 then emptyStatistics
              else
                let a = fold stat_step ts
                          \<lparr> a_durationByStatus = \<lparr> d_passed = Fin 0, d_failed = Fin 0, d_skipped = Fin 0 \<rparr>,
                            a_retriesMap = [], a_maxDuration = Fin 0, a_minDuration = PInf \<rparr>;
                    minD = (if a_minDuration a = PInf then Fin 0 else a_minDuration a);
                    ranges = fold range_step ts
                               \<lparr> fast = Fin 0, medium = Fin 0, slow = Fin 0, verySlow = Fin 0 \<rparr>
                in \<lparr> passRate = percent_of (passed d) (totalTests d),
                     failRate = percent_of (failed d) (totalTests d),
                     skipRate = percent_of (skipped d) (totalTests d),
                     averageDuration =
                       (if js_gt (totalTests d) (Fin 0)
                        then Math_round (js_div (totalDuration d) (totalTests d)) else Fin 0),
                     maxDuration = a_maxDuration a,
                     minDuration = minD,
                     durationByStatus = a_durationByStatus a,
                     retriesDistribution = a_retriesMap a,
                     durationRanges = ranges,
                     failedTests = filter (\<lambda>t. t_status t = ''failed'') ts,
                     flakyTests = filter is_flaky ts,
                     slowestTests = slice_to 10 (js_sort by_duration_desc ts) \<rparr>))"

section \<open>The template reports (reportGenerator.ts, advancedReportGenerator.ts)\<close>

text \<open>
  A rejected promise is a value \<open>Inl\<close>. The file system is a map from paths to contents,
  and each generator returns it with its result. The document that Handlebars renders from
  the data, the options and the clock is the parameter \<open>render\<close>; the webhooks of the
  advanced report are sent after the file is written and catch their own errors.
\<close>

datatype js_error = Error string | TypeError string

type_synonym files = "string \<rightharpoonup> string"

record ReportOptions =
  ro_title :: "string option"
  ro_theme :: "string option"
  ro_outputPath :: string

definition generateReport ::
  "(Statistics \<Rightarrow> ReportData \<Rightarrow> ReportOptions \<Rightarrow> string) \<Rightarrow> ReportData option \<Rightarrow> ReportOptions
     \<Rightarrow> files \<Rightarrow> (js_error + string) \<times> files" where
  "generateReport render data options fs =
     (case data of
        None \<Rightarrow> (Inl (Error ''Invalid or empty ReportData provided to generateReport.''), fs)
      | Some d \<Rightarrow>
          if (case tests d of None \<Rightarrow> True | Some ts \<Rightarrow> length ts = 0)
          then (Inl (Error ''Invalid or empty ReportData provided to generateReport.''), fs)
          else
            let stats = calculateStatistics data;
                report = render stats d options
            in (Inr (ro_outputPath options), fs(ro_outputPath options \<mapsto> report)))"

record EnhancedMetrics = Statistics +
  performanceScore :: jsnum
  reliabilityScore :: jsnum
  efficiency :: jsnum

definition enhanceStatistics :: "Statistics \<Rightarrow> ReportData \<Rightarrow> EnhancedMetrics" where
  "enhanceStatistics stats d =
     (let flakyShare = js_mul (js_sub (Fin 100)
                         (js_mul (js_div (flaky d) (Math_max (Fin 1) (totalTests d))) (Fin 100)))
                         (lit (3 / 10));
          performanceScore = Math_max (Fin 0) (Math_min (Fin 100)
            (js_add (js_add (js_mul (passRate stats) (lit (6 / 10))) flakyShare)
               (if js_lt (averageDuration stats) (Fin 5000) then Fin 10
                else Math_max (Fin 0) (js_sub (Fin 10) (js_div (averageDuration stats) (Fin 1000))))));
          reliabilityScore = Math_max (Fin 0) (Math_min (Fin 100)
            (js_add (js_mul (passRate stats) (lit (7 / 10))) flakyShare));
          efficiency = Math_max (Fin 0) (Math_min (Fin 100)
            (js_add
               (js_mul (js_div (fast (durationRanges stats)) (Math_max (Fin 1) (totalTests d))) (Fin 100))
               (js_mul (js_div (medium (durationRanges stats)) (Math_max (Fin 1) (totalTests d))) (Fin 50))))
      in Statistics.extend stats
           \<lparr> performanceScore = Math_round performanceScore,
             reliabilityScore = Math_round reliabilityScore,
             efficiency = Math_round efficiency \<rparr>)"

record AdvancedReportOptions = ReportOptions +
  slackWebhook :: "string option"
  teamsWebhook :: "string option"

definition generateAdvancedReport ::
  "(EnhancedMetrics \<Rightarrow> ReportData \<Rightarrow> AdvancedReportOptions \<Rightarrow> string) \<Rightarrow> ReportData option
     \<Rightarrow> AdvancedReportOptions \<Rightarrow> files \<Rightarrow> (js_error + string) \<times> files" where
  "generateAdvancedReport render data options fs =
     (case data of
        None \<Rightarrow> (Inl (Error ''Invalid or empty ReportData provided to generateAdvancedReport.''), fs)
      | Some d \<Rightarrow>
          if (case tests d of None \<Rightarrow> True | Some ts \<Rightarrow> length ts = 0)
          then (Inl (Error ''Invalid or empty ReportData provided to generateAdvancedReport.''), fs)
          else
            let stats = calculateStatistics data;
                enhancedStats = enhanceStatistics stats d;
                report = render enhancedStats d options
            in (Inr (ro_outputPath options), fs(ro_outputPath options \<mapsto> report)))"


section \<open>The Vue report (vueReportGenerator.ts)\<close>

text \<open>\<open>clamp(n)\<close> with its default bounds 0 and 100.\<close>

definition clamp :: "jsnum \<Rightarrow> jsnum" where
  "clamp n = Math_max (Fin 0) (Math_min (Fin 100) n)"

text \<open>
  Reading an array at a number: the element when the number is an index of the array,
  \<open>undefined\<close> (\<open>None\<close>) otherwise. In arithmetic \<open>undefined\<close> is NaN.
\<close>

definition js_index :: "'a list \<Rightarrow> jsnum \<Rightarrow> 'a option" where
  "js_index xs i =
     (case i of
        Fin q \<Rightarrow> if q = of_int \<lfloor>q\<rfloor> \<and> 0 \<le> q \<and> nat \<lfloor>q\<rfloor> < length xs
                 then Some (xs ! nat \<lfloor>q\<rfloor>) else None
      | _ \<Rightarrow> None)"


definition percentile :: "jsnum list \<Rightarrow> jsnum \<Rightarrow> jsnum option" where
  "percentile values p =
     (if length values = 0 then Some (Fin 0)
      else
        let sorted = js_sort (\<lambda>a b. js_sub a b) values;
            idx = js_sub (Math_ceil (js_mul (js_div p (Fin 100)) (num (length sorted)))) (Fin 1)
        in js_index sorted
             (Math_max (Fin 0) (Math_min (js_sub (num (length sorted)) (Fin 1)) idx)))"













































section \<open>Specification-side predicates\<close>

text \<open>
  The structure that the specification asks the validator to confirm, in its words: the
  root is an object with a \<open>suites\<close> array; every suite node is an object whose
  \<open>specs\<close>, when present, is an array of objects with a \<open>tests\<close> array each, and
  whose \<open>suites\<close>, when present, is an array of such suite nodes. A suite with neither
  is well formed. Any other node is malformed.
\<close>

fun is_object :: "json \<Rightarrow> bool" where
  "is_object (JObj _) = True"
| "is_object _ = False"

definition spec_wellformed :: "json \<Rightarrow> bool" where
  "spec_wellformed s = (is_object s \<and> as_array (get_prop s ''tests'') \<noteq> None)"

function spec_suite_wellformed :: "json \<Rightarrow> bool" where
  "spec_suite_wellformed s =
     (is_object s
      \<and> (case get_prop s ''specs'' of
            None \<Rightarrow> True
          | Some v \<Rightarrow> (case as_array (Some v) of None \<Rightarrow> False | Some ss \<Rightarrow> list_all spec_wellformed ss))
      \<and> (case get_prop s ''suites'' of
            None \<Rightarrow> True
          | Some v \<Rightarrow> (case as_array (Some v) of
                         None \<Rightarrow> False
                       | Some cs \<Rightarrow> list_all spec_suite_wellformed cs)))"
  by pat_completeness auto
termination
proof (relation "measure size", goal_cases)
  case 1
  show ?case by simp
next
  case (2 s v cs child)
  then have "as_array (get_prop s ''suites'') = Some cs" by simp
  from size_as_array [OF this] 2 show ?case by fastforce
qed

declare spec_suite_wellformed.simps [simp del]

definition spec_report_wellformed :: "json \<Rightarrow> bool" where
  "spec_report_wellformed r =
     (is_object r
      \<and> (case as_array (get_prop r ''suites'') of
            None \<Rightarrow> False
          | Some ss \<Rightarrow> list_all spec_suite_wellformed ss))"

text \<open>
  What the validator checks of a suite node: it is a non-null value of type \<open>object\<close>,
  and so is, recursively, every entry of its \<open>suites\<close> when that is an array.
\<close>

function suite_node_ok :: "json \<Rightarrow> bool" where
  "suite_node_ok s =
     (json_truthy s \<and> typeof_object s
      \<and> (case as_array (get_prop s ''suites'') of
            None \<Rightarrow> True
          | Some cs \<Rightarrow> list_all suite_node_ok cs))"
  by pat_completeness auto
termination
proof (relation "measure size", goal_cases)
  case 1
  show ?case by simp
next
  case (2 s cs child)
  then show ?case by (auto dest!: size_as_array)
qed

declare suite_node_ok.simps [simp del]









definition nonneg :: "jsnum \<Rightarrow> bool" where
  "nonneg v = (case v of Fin q \<Rightarrow> 0 \<le> q | PInf \<Rightarrow> True | _ \<Rightarrow> False)"

definition between :: "int \<Rightarrow> int \<Rightarrow> jsnum \<Rightarrow> bool" where
  "between lo hi v = (case v of Fin q \<Rightarrow> of_int lo \<le> q \<and> q \<le> of_int hi | _ \<Rightarrow> False)"

definition is_double :: "jsnum \<Rightarrow> bool" where
  "is_double v = (case v of Fin q \<Rightarrow> fl q = q \<and> \<bar>q\<bar> < 2 ^ 1024 | _ \<Rightarrow> False)"

text \<open>
  The index that \<open>percentile\<close> computes for the percentile \<open>q\<close> of a series of \<open>n\<close>
  numbers, in double arithmetic, and the index of the nearest-rank definition, in exact
  arithmetic.
\<close>

definition rank_index :: "rat \<Rightarrow> nat \<Rightarrow> nat" where
  "rank_index q n = nat (max 0 (min (int n - 1) (\<lceil>fl (fl (q / 100) * of_nat n)\<rceil> - 1)))"

definition nearest_rank :: "rat \<Rightarrow> nat \<Rightarrow> nat" where
  "nearest_rank q n = nat (max 0 (min (int n - 1) (\<lceil>q / 100 * of_nat n\<rceil> - 1)))"

fun fin_val :: "jsnum \<Rightarrow> rat" where
  "fin_val (Fin q) = q"
| "fin_val _ = 0"




text \<open>The input that the two template generators reject.\<close>

definition empty_data :: "ReportData option \<Rightarrow> bool" where
  "empty_data data =
     (case data of None \<Rightarrow> True | Some d \<Rightarrow> (case tests d of None \<Rightarrow> True | Some ts \<Rightarrow> ts = []))"

section \<open>Arithmetic of the number model\<close>

lemma pow2_bitlen:
  assumes "0 < a"
  shows "(2::rat) powi (bitlen a - 1) \<le> of_int a" and "of_int a < (2::rat) powi (bitlen a)"
proof -
  from bitlen_bounds [OF assms]
  have b: "2 ^ nat (bitlen a - 1) \<le> a" "a < 2 ^ nat (bitlen a)" by auto
  have ge1: "1 \<le> bitlen a" using assms bitlen_eq_zero_iff [of a] bitlen_nonneg [of a] by linarith
  have "(of_int (2 ^ nat (bitlen a - 1)) :: rat) \<le> of_int a" using b(1) by (simp only: of_int_le_iff)
  then show "(2::rat) powi (bitlen a - 1) \<le> of_int a" using ge1 by (simp add: power_int_def)
  have "(of_int a :: rat) < of_int (2 ^ nat (bitlen a))" using b(2) by (simp only: of_int_less_iff)
  then show "of_int a < (2::rat) powi (bitlen a)" using ge1 by (simp add: power_int_def)
qed

lemma ilog2_bounds:
  assumes "0 < x"
  shows "2 powi (ilog2 x) \<le> x \<and> x < 2 powi (ilog2 x + 1)"
proof -
  obtain a b where q: "quotient_of x = (a, b)" by (cases "quotient_of x")
  then have b: "0 < b" and x: "x = of_int a / of_int b"
    by (simp_all add: quotient_of_denom_pos quotient_of_div)
  from assms x b have a: "0 < a" by (simp add: zero_less_divide_iff)
  define k where "k = bitlen a - bitlen b"
  have lo: "(2::rat) powi (k - 1) < x"
  proof -
    have "(2::rat) powi (k - 1) = 2 powi (bitlen a - 1) / 2 powi (bitlen b)"
      by (simp add: k_def power_int_diff)
    also have "\<dots> \<le> of_int a / 2 powi (bitlen b)"
      using pow2_bitlen(1) [OF a] by (simp add: divide_right_mono)
    also have "\<dots> < of_int a / of_int b"
      using pow2_bitlen(2) [OF b] a b by (simp add: divide_strict_left_mono)
    finally show ?thesis using x by simp
  qed
  have hi: "x < (2::rat) powi (k + 1)"
  proof -
    have "x = of_int a / of_int b" by (rule x)
    also have "\<dots> < 2 powi (bitlen a) / of_int b"
      using pow2_bitlen(2) [OF a] b by (simp add: divide_strict_right_mono)
    also have "\<dots> \<le> 2 powi (bitlen a) / 2 powi (bitlen b - 1)"
      using pow2_bitlen(1) [OF b] b by (simp add: divide_left_mono)
    also have "\<dots> = 2 powi (k + 1)"
      by (simp add: k_def power_int_diff power_int_add)
    finally show ?thesis .
  qed
  show ?thesis
  proof (cases "2 powi k \<le> x")
    case True
    then have "ilog2 x = k" by (simp add: ilog2_def q k_def)
    with True hi show ?thesis by simp
  next
    case False
    then have "ilog2 x = k - 1" by (simp add: ilog2_def q k_def)
    with False lo show ?thesis by simp
  qed
qed

lemma powi_mono2: "a \<le> b \<Longrightarrow> (2::rat) powi a \<le> 2 powi b"
  by (rule power_int_increasing) simp_all

lemma powi_pos2: "0 < (2::rat) powi a"
  by (simp add: zero_less_power_int)

lemma ilog2_unique:
  assumes "0 < x" "2 powi e \<le> x" "x < 2 powi (e + 1)"
  shows "ilog2 x = e"
proof -
  from ilog2_bounds [OF assms(1)]
  have b: "2 powi (ilog2 x) \<le> x" "x < 2 powi (ilog2 x + 1)" by auto
  have "\<not> ilog2 x < e"
  proof
    assume "ilog2 x < e"
    then have "(2::rat) powi (ilog2 x + 1) \<le> 2 powi e" by (intro powi_mono2) simp
    with b(2) assms(2) show False by simp
  qed
  moreover have "\<not> e < ilog2 x"
  proof
    assume "e < ilog2 x"
    then have "(2::rat) powi (e + 1) \<le> 2 powi (ilog2 x)" by (intro powi_mono2) simp
    with b(1) assms(3) show False by simp
  qed
  ultimately show ?thesis by simp
qed

lemma ilog2_mono:
  assumes "0 < x" "x \<le> y"
  shows "ilog2 x \<le> ilog2 y"
proof (rule ccontr)
  assume "\<not> ilog2 x \<le> ilog2 y"
  then have "(2::rat) powi (ilog2 y + 1) \<le> 2 powi (ilog2 x)" by (intro powi_mono2) simp
  moreover from assms have "0 < y" by simp
  ultimately show False
    using ilog2_bounds [OF assms(1)] ilog2_bounds [OF \<open>0 < y\<close>] assms(2) by simp
qed

lemma round_even_of_int [simp]: "round_even (of_int n) = n"
  by (simp add: round_even_def)

lemma round_even_lower: "\<lfloor>q\<rfloor> \<le> round_even q"
  by (simp add: round_even_def Let_def)

lemma round_even_upper: "round_even q \<le> \<lceil>q\<rceil>"
  unfolding round_even_def Let_def
  by (auto simp: ceiling_altdef)

lemma round_even_ge: "of_int n \<le> q \<Longrightarrow> n \<le> round_even q"
proof -
  assume "of_int n \<le> q"
  then have "n \<le> \<lfloor>q\<rfloor>" by (simp add: le_floor_iff)
  with round_even_lower [of q] show ?thesis by linarith
qed

lemma round_even_le: "q \<le> of_int n \<Longrightarrow> round_even q \<le> n"
proof -
  assume "q \<le> of_int n"
  then have "\<lceil>q\<rceil> \<le> n" by (simp add: ceiling_le_iff)
  with round_even_upper [of q] show ?thesis by linarith
qed

lemma round_even_mono:
  assumes "x \<le> y"
  shows "round_even x \<le> round_even y"
proof (cases "\<lfloor>x\<rfloor> = \<lfloor>y\<rfloor>")
  case True
  with assms show ?thesis
    unfolding round_even_def Let_def by auto
next
  case False
  with assms have "\<lfloor>x\<rfloor> < \<lfloor>y\<rfloor>" by (simp add: floor_mono le_neq_trans)
  then have "\<lceil>x\<rceil> \<le> \<lfloor>y\<rfloor>"
    by (smt (verit) ceiling_altdef)
  with round_even_upper [of x] round_even_lower [of y] show ?thesis by linarith
qed

lemma powi_split: "(2::rat) powi (a + b) = 2 powi a * 2 powi b"
  by (rule power_int_add) simp

lemma powi_quot: "(2::rat) powi a / 2 powi b = 2 powi (a - b)"
  by (simp add: power_int_diff)

lemma powi_53: "of_int (2 ^ 53) * 2 powi (e - 52) = (2::rat) powi (e + 1)"
proof -
  have "e + 1 = 53 + (e - 52)" by simp
  then have "(2::rat) powi (e + 1) = 2 powi (53 + (e - 52))" by (rule arg_cong)
  also have "\<dots> = 2 powi 53 * 2 powi (e - 52)" by (rule powi_split)
  finally show ?thesis by simp
qed

lemma powi_52: "of_int (2 ^ 52) * 2 powi (e - 52) = (2::rat) powi e"
proof -
  have "e = 52 + (e - 52)" by simp
  then have "(2::rat) powi e = 2 powi (52 + (e - 52))" by (rule arg_cong)
  also have "\<dots> = 2 powi 52 * 2 powi (e - 52)" by (rule powi_split)
  finally show ?thesis by simp
qed

lemma powi_53_quot: "(2::rat) powi (e + 1) / 2 powi (e - 52) = of_int (2 ^ 53)"
  using powi_53 [of e] by (simp add: field_simps)

lemma powi_52_quot: "(2::rat) powi e / 2 powi (e - 52) = of_int (2 ^ 52)"
  using powi_52 [of e] by (simp add: field_simps)

lemma fl_pos_mono:
  assumes "0 < x" "x \<le> y"
  shows "fl_pos x \<le> fl_pos y"
proof -
  from assms have ypos: "0 < y" by simp
  define ex where "ex = max (ilog2 x) (- 1022)"
  define ey where "ey = max (ilog2 y) (- 1022)"
  have fx: "fl_pos x = of_int (round_even (x / 2 powi (ex - 52))) * 2 powi (ex - 52)"
    by (simp add: fl_pos_def Let_def ex_def)
  have fy: "fl_pos y = of_int (round_even (y / 2 powi (ey - 52))) * 2 powi (ey - 52)"
    by (simp add: fl_pos_def Let_def ey_def)
  have le: "ex \<le> ey" using ilog2_mono [OF assms] by (simp add: ex_def ey_def)
  show ?thesis
  proof (cases "ex = ey")
    case True
    have "x / 2 powi (ey - 52) \<le> y / 2 powi (ey - 52)"
      using assms(2) by (simp add: divide_right_mono)
    then have "round_even (x / 2 powi (ey - 52)) \<le> round_even (y / 2 powi (ey - 52))"
      by (rule round_even_mono)
    then show ?thesis unfolding fx fy True by (simp add: mult_right_mono)
  next
    case False
    with le have lt: "ex + 1 \<le> ey" by simp
    then have eyl: "ey = ilog2 y" by (simp add: ey_def ex_def)
    have "x < 2 powi (ilog2 x + 1)" using ilog2_bounds [OF assms(1)] by simp
    also have "\<dots> \<le> 2 powi (ex + 1)" by (intro powi_mono2) (simp add: ex_def)
    finally have xu: "x < 2 powi (ex + 1)" .
    have "x / 2 powi (ex - 52) \<le> 2 powi (ex + 1) / 2 powi (ex - 52)"
      using xu by (simp add: divide_right_mono)
    also have "\<dots> = of_int (2 ^ 53)" by (rule powi_53_quot)
    finally have "round_even (x / 2 powi (ex - 52)) \<le> 2 ^ 53" by (rule round_even_le)
    then have "(of_int (round_even (x / 2 powi (ex - 52))) :: rat) \<le> of_int (2 ^ 53)"
      by (simp only: of_int_le_iff)
    then have "fl_pos x \<le> of_int (2 ^ 53) * 2 powi (ex - 52)"
      unfolding fx by (rule mult_right_mono) simp
    also have "\<dots> = 2 powi (ex + 1)" by (rule powi_53)
    also have "\<dots> \<le> 2 powi ey" using lt by (rule powi_mono2)
    finally have a: "fl_pos x \<le> 2 powi ey" .
    have yl: "2 powi ey \<le> y" using ilog2_bounds [OF ypos] eyl by simp
    have "of_int (2 ^ 52) = (2::rat) powi ey / 2 powi (ey - 52)" by (rule powi_52_quot [symmetric])
    also have "\<dots> \<le> y / 2 powi (ey - 52)" using yl by (simp add: divide_right_mono)
    finally have "2 ^ 52 \<le> round_even (y / 2 powi (ey - 52))" by (rule round_even_ge)
    then have "(of_int (2 ^ 52) :: rat) \<le> of_int (round_even (y / 2 powi (ey - 52)))"
      by (simp only: of_int_le_iff)
    then have "of_int (2 ^ 52) * 2 powi (ey - 52) \<le> fl_pos y"
      unfolding fy by (rule mult_right_mono) simp
    then have b: "2 powi ey \<le> fl_pos y" by (simp only: powi_52)
    from a b show ?thesis by simp
  qed
qed

lemma fl_pos_nonneg: "0 < x \<Longrightarrow> 0 \<le> fl_pos x"
proof -
  assume "0 < x"
  then have "0 \<le> x / 2 powi (max (ilog2 x) (- 1022) - 52)" by simp
  then have "0 \<le> round_even (x / 2 powi (max (ilog2 x) (- 1022) - 52))"
    using round_even_ge [of 0] by simp
  then show ?thesis by (simp add: fl_pos_def Let_def)
qed

lemma fl_zero [simp]: "fl 0 = 0"
  by (simp add: fl_def)

lemma fl_neg: "fl (- x) = - fl x"
  by (simp add: fl_def)

lemma fl_nonneg: "0 \<le> x \<Longrightarrow> 0 \<le> fl x"
  by (simp add: fl_def fl_pos_nonneg)

lemma fl_nonpos: "x \<le> 0 \<Longrightarrow> fl x \<le> 0"
  using fl_nonneg [of "- x"] by (simp add: fl_neg)

lemma fl_mono:
  assumes "x \<le> y"
  shows "fl x \<le> fl y"
proof -
  consider "0 < x" | "x \<le> 0" "0 \<le> y" | "y < 0" by linarith
  then show ?thesis
  proof cases
    case 1
    with assms have "0 < y" by simp
    with 1 assms show ?thesis by (simp add: fl_def fl_pos_mono)
  next
    case 2
    then show ?thesis using fl_nonpos [of x] fl_nonneg [of y] by simp
  next
    case 3
    with assms have "x < 0" by simp
    have "fl_pos (- y) \<le> fl_pos (- x)" using 3 assms by (intro fl_pos_mono) simp_all
    with 3 \<open>x < 0\<close> show ?thesis by (simp add: fl_def)
  qed
qed

lemma fl_pos_exact:
  assumes "0 < x" and "x / 2 powi (max (ilog2 x) (- 1022) - 52) = of_int m"
  shows "fl_pos x = x"
proof -
  have "fl_pos x = of_int m * 2 powi (max (ilog2 x) (- 1022) - 52)"
    by (simp add: fl_pos_def Let_def assms(2))
  also have "\<dots> = x" using assms(2) [symmetric] by simp
  finally show ?thesis .
qed

lemma fl_pos_of_nat:
  assumes "0 < n" "n \<le> 2 ^ 53"
  shows "fl_pos (of_nat n) = of_nat n"
proof -
  define x :: rat where "x = of_nat n"
  have xpos: "0 < x" using assms by (simp add: x_def)
  define e where "e = max (ilog2 x) (- 1022)"
  have "x \<le> 2 powi 53" using assms(2) unfolding x_def
    by (metis of_nat_le_iff of_nat_numeral of_nat_power power_int_numeral)
  have e0: "0 \<le> e"
  proof -
    have "(2::rat) powi 0 \<le> x" using assms(1) by (simp add: x_def)
    then have "\<not> ilog2 x < 0"
      using ilog2_bounds [OF xpos] powi_mono2 [of "ilog2 x + 1" 0] by auto
    then show ?thesis by (simp add: e_def)
  qed
  have e53: "e \<le> 53"
  proof -
    have "\<not> 53 < ilog2 x"
    proof
      assume "53 < ilog2 x"
      then have "(2::rat) powi 54 \<le> 2 powi (ilog2 x)" by (intro powi_mono2) simp
      with ilog2_bounds [OF xpos] \<open>x \<le> 2 powi 53\<close> show False by simp
    qed
    then show ?thesis by (simp add: e_def)
  qed
  show ?thesis
  proof (cases "e \<le> 52")
    case True
    then have "x / 2 powi (e - 52) = x * 2 powi (52 - e)"
      by (simp add: power_int_diff)
    also have "\<dots> = of_int (int n * 2 ^ nat (52 - e))"
      using True by (simp add: x_def power_int_def)
    finally show ?thesis
      using fl_pos_exact [OF xpos, of "int n * 2 ^ nat (52 - e)"] by (simp add: e_def x_def)
  next
    case False
    with e53 have e: "e = 53" by simp
    then have "ilog2 x = 53" by (simp add: e_def max_def split: if_splits)
    with ilog2_bounds [OF xpos] have "2 powi 53 \<le> x" by simp
    with \<open>x \<le> 2 powi 53\<close> have xe: "x = 2 powi 53" by simp
    have "x / 2 powi (e - 52) = of_int (2 ^ 52)" by (simp add: xe e)
    then show ?thesis
      using fl_pos_exact [OF xpos, of "2 ^ 52"] by (simp add: e_def x_def)
  qed
qed

lemma fl_of_nat: "n \<le> 2 ^ 53 \<Longrightarrow> fl (of_nat n) = of_nat n"
  by (cases "n = 0") (simp_all add: fl_def fl_pos_of_nat)

lemma fl_of_int:
  assumes "\<bar>i\<bar> \<le> 2 ^ 53"
  shows "fl (of_int i) = of_int i"
proof (cases "0 \<le> i")
  case True
  then have "nat i \<le> 2 ^ 53" using assms by (simp add: nat_le_iff)
  from fl_of_nat [OF this] True show ?thesis by simp
next
  case False
  then have "nat (- i) \<le> 2 ^ 53" using assms by (simp add: nat_le_iff)
  from fl_of_nat [OF this] False have "fl (of_int (- i)) = of_int (- i)" by simp
  then show ?thesis by (simp add: fl_neg)
qed


section \<open>The structural validator\<close>

lemma validate_unfold:
  "validatePlaywrightReport r =
     (json_truthy r \<and> typeof_object r
      \<and> (case as_array (get_prop r ''suites'') of
            None \<Rightarrow> False
          | Some ss \<Rightarrow> list_all suite_node_ok ss))"
proof (induction r rule: validatePlaywrightReport.induct)
  case (1 report)
  show ?case
  proof (cases "json_truthy report \<and> typeof_object report")
    case False
    then show ?thesis by (subst validatePlaywrightReport.simps) auto
  next
    case ok: True
    show ?thesis
    proof (cases "as_array (get_prop report ''suites'')")
      case None
      then show ?thesis using ok by (subst validatePlaywrightReport.simps) auto
    next
      case (Some ss)
      have child: "validatePlaywrightReport (JObj [(''suites'', JArr [c])]) = suite_node_ok c"
        if "x \<in> set ss" "json_truthy x" "typeof_object x"
           "as_array (get_prop x ''suites'') = Some cs" "cs \<noteq> []" "c \<in> set cs" for x cs c
      proof -
        have "validatePlaywrightReport (JObj [(''suites'', JArr [c])]) =
                (json_truthy (JObj [(''suites'', JArr [c])]) \<and> typeof_object (JObj [(''suites'', JArr [c])])
                 \<and> (case as_array (get_prop (JObj [(''suites'', JArr [c])]) ''suites'') of
                       None \<Rightarrow> False | Some ss \<Rightarrow> list_all suite_node_ok ss))"
          using that ok Some
          by (intro "1.IH" [of ss x "get_prop x ''specs''" "get_prop x ''suites''" _ _ c]) auto
        then show ?thesis by simp
      qed
      have each: "(if \<not> json_truthy x \<or> \<not> typeof_object x then False
            else
              let specs = get_prop x ''specs'';
                  childSuites = get_prop x ''suites'';
                  hasSpecs = (case as_array specs of
                                None \<Rightarrow> False
                              | Some ss \<Rightarrow> list_ex spec_has_tests ss);
                  hasNested = (case as_array childSuites of
                                 None \<Rightarrow> False
                               | Some cs \<Rightarrow> cs \<noteq> [])
              in if \<not> hasSpecs \<and> \<not> hasNested then True
                 else if hasNested
                   then list_all
                          (\<lambda>child. validatePlaywrightReport (JObj [(''suites'', JArr [child])]))
                          (case as_array childSuites of None \<Rightarrow> [] | Some cs \<Rightarrow> cs)
                   else True) = suite_node_ok x" if "x \<in> set ss" for x
      proof (cases "json_truthy x \<and> typeof_object x")
        case False
        then show ?thesis by (subst suite_node_ok.simps) auto
      next
        case xok: True
        show ?thesis
        proof (cases "as_array (get_prop x ''suites'')")
          case None
          then show ?thesis using xok by (subst suite_node_ok.simps) (auto simp: Let_def)
        next
          case (Some cs)
          show ?thesis
          proof (cases "cs = []")
            case True
            then show ?thesis using xok Some by (subst suite_node_ok.simps) (auto simp: Let_def)
          next
            case False
            have "list_all (\<lambda>child. validatePlaywrightReport (JObj [(''suites'', JArr [child])])) cs
                  = list_all suite_node_ok cs"
              using child [OF that _ _ Some False] xok
              by (auto simp: list_all_iff)
            then show ?thesis using xok Some False
              by (subst suite_node_ok.simps) (auto simp: Let_def)
          qed
        qed
      qed
      have "validatePlaywrightReport report = list_all suite_node_ok ss"
        using ok Some each
        by (subst validatePlaywrightReport.simps) (auto simp: list_all_iff)
      then show ?thesis using ok Some by simp
    qed
  qed
qed


text \<open>
  Claim C5, as the specification states it: validation returns true only for a well-formed
  document, any malformed node making it return false. This fails: the document
  \<open>{ "suites": [ { "specs": [null] } ] }\<close> holds a malformed spec node, and the validator
  accepts it (the suite has no spec with a \<open>tests\<close> array and no nested suite, so the
  loop continues).
\<close>

theorem validate_accepts_malformed_spec:
  "validatePlaywrightReport (JObj [(''suites'', JArr [JObj [(''specs'', JArr [JNull])]])])
   \<and> \<not> spec_report_wellformed (JObj [(''suites'', JArr [JObj [(''specs'', JArr [JNull])]])])"
  by (simp add: validate_unfold suite_node_ok.simps spec_report_wellformed_def
      spec_suite_wellformed.simps spec_wellformed_def)

text \<open>
  Claim C5, amended: \<open>validatePlaywrightReport\<close> returns true exactly when the root is a
  non-null value of type \<open>object\<close> whose \<open>suites\<close> is an array and, recursively through
  every \<open>suites\<close> property that is an array, each suite node is a non-null value of type
  \<open>object\<close>. The \<open>specs\<close> of a suite never decide the result, so a suite with neither
  specs nor nested suites is accepted.
\<close>

theorem validatePlaywrightReport_checks_suite_nodes:
  "validatePlaywrightReport r =
     (json_truthy r \<and> typeof_object r
      \<and> (case as_array (get_prop r ''suites'') of
            None \<Rightarrow> False
          | Some ss \<Rightarrow> list_all suite_node_ok ss))"
  by (rule validate_unfold)

theorem validatePlaywrightReport_checks_suite_nodes_witness:
  "validatePlaywrightReport (JObj [(''suites'', JArr [JObj [], JObj [(''suites'', JArr [JObj []])]])])
   \<and> \<not> validatePlaywrightReport (JObj [(''suites'', JArr [JObj [(''suites'', JArr [JNull])]])])
   \<and> \<not> validatePlaywrightReport (JObj [(''suites'', JNum (Fin 1))])"
  using validatePlaywrightReport_checks_suite_nodes
          [of "JObj [(''suites'', JArr [JObj [], JObj [(''suites'', JArr [JObj []])]])]"]
        validatePlaywrightReport_checks_suite_nodes
          [of "JObj [(''suites'', JArr [JObj [(''suites'', JArr [JNull])]])]"]
        validatePlaywrightReport_checks_suite_nodes [of "JObj [(''suites'', JNum (Fin 1))]"]
  by (simp add: suite_node_ok.simps)

section \<open>Empty input\<close>

lemma calculateStatistics_empty: "empty_data data \<Longrightarrow> calculateStatistics data = emptyStatistics"
  by (auto simp: empty_data_def calculateStatistics_def split: option.splits)

text \<open>
  Claim C6: on an empty record set (no data, no \<open>tests\<close>, or an empty \<open>tests\<close> array)
  \<open>calculateStatistics\<close> returns the rates, the average, the maximum and the minimum
  duration as 0, and \<open>percentile\<close> returns 0 on the empty series.
\<close>

theorem empty_input_is_all_zero:
  assumes "empty_data data"
  shows "passRate (calculateStatistics data) = Fin 0
         \<and> failRate (calculateStatistics data) = Fin 0
         \<and> skipRate (calculateStatistics data) = Fin 0
         \<and> averageDuration (calculateStatistics data) = Fin 0
         \<and> maxDuration (calculateStatistics data) = Fin 0
         \<and> minDuration (calculateStatistics data) = Fin 0
         \<and> percentile [] p = Some (Fin 0)"
  using calculateStatistics_empty [OF assms]
  by (simp add: emptyStatistics_def percentile_def)

theorem empty_input_is_all_zero_witness:
  "empty_data (Some \<lparr> totalTests = Fin 7, passed = Fin 7, failed = Fin 0, skipped = Fin 0,
                      flaky = Fin 0, totalDuration = Fin 900, tests = Some [], suites = None,
                      browsers = None, browserStats = None, suiteStats = None \<rparr>)
   \<and> passRate (calculateStatistics (Some \<lparr> totalTests = Fin 7, passed = Fin 7, failed = Fin 0,
                      skipped = Fin 0, flaky = Fin 0, totalDuration = Fin 900, tests = Some [],
                      suites = None, browsers = None, browserStats = None, suiteStats = None \<rparr>)) = Fin 0
   \<and> minDuration (calculateStatistics (Some \<lparr> totalTests = Fin 7, passed = Fin 7, failed = Fin 0,
                      skipped = Fin 0, flaky = Fin 0, totalDuration = Fin 900, tests = Some [],
                      suites = None, browsers = None, browserStats = None, suiteStats = None \<rparr>)) = Fin 0
   \<and> percentile [] (Fin 95) = Some (Fin 0)"
proof -
  have e: "empty_data (Some \<lparr> totalTests = Fin 7, passed = Fin 7, failed = Fin 0, skipped = Fin 0,
                      flaky = Fin 0, totalDuration = Fin 900, tests = Some [], suites = None,
                      browsers = None, browserStats = None, suiteStats = None \<rparr>)"
    by (simp add: empty_data_def)
  from empty_input_is_all_zero [OF e, of "Fin 95"] e show ?thesis by simp
qed

text \<open>
  Claim C10: \<open>generateReport\<close> and \<open>generateAdvancedReport\<close> reject with an Error when
  the data is null or undefined, has no \<open>tests\<close> array or has an empty one, and the file
  system is then as it was.
\<close>

theorem template_reports_reject_empty_data:
  assumes "empty_data data"
  shows "generateReport render data options fs
           = (Inl (Error ''Invalid or empty ReportData provided to generateReport.''), fs)
         \<and> generateAdvancedReport render' data options' fs
           = (Inl (Error ''Invalid or empty ReportData provided to generateAdvancedReport.''), fs)"
  using assms
  by (auto simp: empty_data_def generateReport_def generateAdvancedReport_def split: option.splits)

theorem template_reports_reject_empty_data_witness:
  "empty_data None
   \<and> generateReport (\<lambda>st d opts. ''<html>'') None \<lparr> ro_title = None, ro_theme = None, ro_outputPath = ''out.html'' \<rparr> Map.empty
       = (Inl (Error ''Invalid or empty ReportData provided to generateReport.''), Map.empty)
   \<and> generateAdvancedReport (\<lambda>st d opts. ''<html>'') None
       \<lparr> ro_title = None, ro_theme = None, ro_outputPath = ''out.html'', slackWebhook = None, teamsWebhook = None \<rparr>
       Map.empty
       = (Inl (Error ''Invalid or empty ReportData provided to generateAdvancedReport.''), Map.empty)"
proof -
  have e: "empty_data None" by (simp add: empty_data_def)
  from template_reports_reject_empty_data [OF e] e show ?thesis by blast
qed


section \<open>Numbers: integers, counters and comparisons\<close>

lemma rnd_of_int:
  assumes "\<bar>i\<bar> \<le> 2 ^ 53"
  shows "rnd (of_int i) = Fin (of_int i)"
proof -
  have "(of_int \<bar>i\<bar> :: rat) \<le> of_int (2 ^ 53)" using assms by (simp only: of_int_le_iff)
  then have "\<bar>of_int i :: rat\<bar> \<le> 2 ^ 53" by simp
  moreover have "(2::rat) ^ 53 < 2 ^ 1024" by simp
  ultimately have "\<bar>of_int i :: rat\<bar> < 2 ^ 1024" by (rule le_less_trans)
  then have "\<not> (2::rat) ^ 1024 \<le> of_int i" "\<not> (of_int i :: rat) \<le> - (2 ^ 1024)" by linarith+
  then show ?thesis by (simp add: rnd_def fl_of_int [OF assms] Let_def)
qed

lemma rnd_zero [simp]: "rnd 0 = Fin 0"
  using rnd_of_int [of 0] by simp

lemma rnd_one [simp]: "rnd 1 = Fin 1"
  using rnd_of_int [of 1] by simp

lemma rnd_numeral [simp]: "numeral k \<le> (9007199254740992::int) \<Longrightarrow> rnd (numeral k) = Fin (numeral k)"
  using rnd_of_int [of "numeral k"] by simp

lemma rnd_neg_numeral [simp]:
  "numeral k \<le> (9007199254740992::int) \<Longrightarrow> rnd (- numeral k) = Fin (- numeral k)"
  using rnd_of_int [of "- numeral k"] by simp

lemma floor_int_half: "\<lfloor>(of_int i :: rat) + 1 / 2\<rfloor> = i"
  by linarith

lemma Math_round_of_int [simp]: "Math_round (Fin (of_int i)) = Fin (of_int i)"
  by (simp add: floor_int_half)

lemma Math_round_numeral [simp]: "Math_round (Fin (numeral k)) = Fin (numeral k)"
  using Math_round_of_int [of "numeral k"] by (simp del: Math_round.simps Math_round_of_int)

lemma Math_round_neg_numeral [simp]: "Math_round (Fin (- numeral k)) = Fin (- numeral k)"
  using Math_round_of_int [of "- numeral k"] by (simp del: Math_round.simps Math_round_of_int)

lemma Math_round_zero [simp]: "Math_round (Fin 0) = Fin 0"
  using Math_round_of_int [of 0] by (simp del: Math_round.simps Math_round_of_int)

declare Math_round.simps(1) [simp del]



definition pos :: "jsnum \<Rightarrow> bool" where
  "pos v = (v = PInf \<or> (\<exists>c. v = Fin c \<and> 1 \<le> c))"



lemma pos_gt: "pos v \<Longrightarrow> js_gt v (Fin 0)"
  by (auto simp: pos_def js_gt_def)








section \<open>The parser\<close>



















section \<open>The history window and the trend comparison\<close>




lemma length_js_insert [simp]: "length (js_insert cmp x xs) = Suc (length xs)"
  by (induction xs) auto

lemma length_js_sort [simp]: "length (js_sort cmp xs) = length xs"
  by (induction xs) (auto simp: js_sort_def)

lemma set_js_insert [simp]: "set (js_insert cmp x xs) = insert x (set xs)"
  by (induction xs) auto

lemma set_js_sort [simp]: "set (js_sort cmp xs) = set xs"
  by (induction xs) (auto simp: js_sort_def)













section \<open>The release gate and the recomputed counters\<close>











section \<open>Scores\<close>


lemma rnd_cases:
  "rnd x = (if 2 ^ 1024 \<le> fl x then PInf else if fl x \<le> - (2 ^ 1024) then NInf else Fin (fl x))"
  by (simp add: rnd_def Let_def)

lemma rnd_not_NaN [simp]: "rnd x \<noteq> NaN"
  by (simp add: rnd_cases)

lemma fl_between:
  assumes "of_int lo \<le> x" "x \<le> of_int hi" "\<bar>lo\<bar> \<le> 2 ^ 53" "\<bar>hi\<bar> \<le> 2 ^ 53"
  shows "of_int lo \<le> fl x \<and> fl x \<le> of_int hi"
  using fl_mono [OF assms(1)] fl_mono [OF assms(2)] fl_of_int [OF assms(3)] fl_of_int [OF assms(4)]
  by simp

lemma int_bound_rat:
  assumes "\<bar>i\<bar> \<le> 2 ^ 53"
  shows "(of_int i :: rat) < 2 ^ 1024" "- (2 ^ 1024) < (of_int i :: rat)"
proof -
  have "(of_int \<bar>i\<bar> :: rat) \<le> of_int (2 ^ 53)" using assms by (simp only: of_int_le_iff)
  then have a: "\<bar>of_int i :: rat\<bar> \<le> 2 ^ 53" by simp
  have b: "(2::rat) ^ 53 < 2 ^ 1024" by simp
  from a b show "(of_int i :: rat) < 2 ^ 1024" "- (2 ^ 1024) < (of_int i :: rat)" by linarith+
qed






lemma clamp_PInf [simp]: "clamp PInf = Fin 100"
  by (simp add: clamp_def Math_max_def Math_min_def)

lemma clamp_NInf [simp]: "clamp NInf = Fin 0"
  by (simp add: clamp_def Math_max_def Math_min_def)








lemma ilog2_scale:
  assumes "0 < x"
  shows "ilog2 (x * 2 powi j) = ilog2 x + j"
proof (rule ilog2_unique)
  show "0 < x * 2 powi j" using assms by (simp add: powi_pos2)
  from ilog2_bounds [OF assms] have b: "2 powi ilog2 x \<le> x" "x < 2 powi (ilog2 x + 1)" by auto
  have "2 powi (ilog2 x + j) = 2 powi ilog2 x * (2::rat) powi j" by (rule powi_split)
  also have "\<dots> \<le> x * 2 powi j" using b(1) by (simp add: mult_right_mono)
  finally show "2 powi (ilog2 x + j) \<le> x * 2 powi j" .
  have "x * 2 powi j < 2 powi (ilog2 x + 1) * (2::rat) powi j"
    using b(2) by (simp add: mult_strict_right_mono powi_pos2)
  also have "\<dots> = 2 powi (ilog2 x + 1 + j)" by (rule powi_split [symmetric])
  also have "ilog2 x + 1 + j = ilog2 x + j + 1" by simp
  finally show "x * 2 powi j < 2 powi (ilog2 x + j + 1)" .
qed

lemma ilog2_of_nat_bounds:
  assumes "0 < n" "n \<le> 2 ^ 53"
  shows "0 \<le> ilog2 (of_nat n)" "ilog2 (of_nat n) \<le> 53" "ilog2 (of_nat n) = 53 \<Longrightarrow> n = 2 ^ 53"
proof -
  define x :: rat where "x = of_nat n"
  have xpos: "0 < x" using assms by (simp add: x_def)
  have xle: "x \<le> 2 powi 53" using assms(2) unfolding x_def
    by (metis of_nat_le_iff of_nat_numeral of_nat_power power_int_numeral)
  have "(2::rat) powi 0 \<le> x" using assms(1) by (simp add: x_def)
  then have "\<not> ilog2 x < 0"
    using ilog2_bounds [OF xpos] powi_mono2 [of "ilog2 x + 1" 0] by auto
  then show "0 \<le> ilog2 (of_nat n)" by (simp add: x_def)
  have "\<not> 53 < ilog2 x"
  proof
    assume "53 < ilog2 x"
    then have "(2::rat) powi 54 \<le> 2 powi (ilog2 x)" by (intro powi_mono2) simp
    with ilog2_bounds [OF xpos] xle show False by simp
  qed
  then show "ilog2 (of_nat n) \<le> 53" by (simp add: x_def)
  assume "ilog2 (of_nat n) = 53"
  with ilog2_bounds [OF xpos] have "2 powi 53 \<le> x" by (simp add: x_def)
  with xle have "x = 2 powi 53" by simp
  then have "(of_nat n :: rat) = of_nat (2 ^ 53)" by (simp add: x_def)
  then show "n = 2 ^ 53" by (simp only: of_nat_eq_iff)
qed

lemma fl_dyadic:
  assumes "0 < n" "n \<le> 2 ^ 53" "- 1074 \<le> j"
  shows "fl (of_nat n * 2 powi j) = of_nat n * 2 powi j"
proof -
  define x :: rat where "x = of_nat n * 2 powi j"
  have npos: "0 < (of_nat n :: rat)" using assms(1) by simp
  have xpos: "0 < x" using npos by (simp add: x_def powi_pos2)
  define en where "en = ilog2 (of_nat n)"
  have il: "ilog2 x = en + j" unfolding x_def en_def by (rule ilog2_scale [OF npos])
  note eb = ilog2_of_nat_bounds [OF assms(1,2), folded en_def]
  define e where "e = max (ilog2 x) (- 1022)"
  have "\<exists>m. x / 2 powi (e - 52) = of_int m"
  proof (cases "en = 53")
    case True
    with eb(3) have n: "n = 2 ^ 53" by simp
    have e: "e = 53 + j" using True il assms(3) by (simp add: e_def)
    have "x = 2 powi 53 * 2 powi j" by (simp add: x_def n)
    also have "\<dots> = 2 powi (53 + j)" by (rule powi_split [symmetric])
    finally have "x / 2 powi (e - 52) = 2 powi (53 + j) / 2 powi (53 + j - 52)" by (simp add: e)
    also have "\<dots> = 2 powi ((53 + j) - (53 + j - 52))" by (rule powi_quot)
    also have "\<dots> = of_int (2 ^ 52)" by simp
    finally show ?thesis by blast
  next
    case False
    with eb have en52: "en \<le> 52" by simp
    have d: "0 \<le> j - (e - 52)" using en52 assms(3) il by (simp add: e_def)
    have "x / 2 powi (e - 52) = of_nat n * (2 powi j / 2 powi (e - 52))" by (simp add: x_def)
    also have "2 powi j / (2::rat) powi (e - 52) = 2 powi (j - (e - 52))" by (rule powi_quot)
    also have "\<dots> = 2 ^ nat (j - (e - 52))" using d by (simp add: power_int_def)
    finally have "x / 2 powi (e - 52) = of_int (int n * 2 ^ nat (j - (e - 52)))" by simp
    then show ?thesis by blast
  qed
  then obtain m where "x / 2 powi (max (ilog2 x) (- 1022) - 52) = of_int m" by (auto simp: e_def)
  from fl_pos_exact [OF xpos this] xpos show ?thesis by (simp add: fl_def x_def)
qed


lemma fl_half: "fl (1 / 2) = 1 / 2"
  using fl_dyadic [of 1 "- 1"] by (simp add: power_int_minus)



lemma rank_index_less: "0 < n \<Longrightarrow> rank_index q n < n"
  by (simp add: rank_index_def)

lemma rank_index_mono: "q \<le> q' \<Longrightarrow> rank_index q n \<le> rank_index q' n"
proof -
  assume "q \<le> q'"
  then have "q / 100 \<le> q' / 100" by simp
  then have "fl (q / 100) \<le> fl (q' / 100)" by (rule fl_mono)
  then have "fl (q / 100) * of_nat n \<le> fl (q' / 100) * of_nat n" by (simp add: mult_right_mono)
  then have "fl (fl (q / 100) * of_nat n) \<le> fl (fl (q' / 100) * of_nat n)" by (rule fl_mono)
  then have "\<lceil>fl (fl (q / 100) * of_nat n)\<rceil> \<le> \<lceil>fl (fl (q' / 100) * of_nat n)\<rceil>" by (rule ceiling_mono)
  then show ?thesis unfolding rank_index_def by (intro nat_mono) linarith
qed

lemma max_min_int:
  "Math_max (Fin 0) (Math_min (Fin (of_int i)) (Fin (of_int j))) = Fin (of_int (max 0 (min i j)))"
  by (auto simp: Math_max_def Math_min_def max_def min_def)

lemma percentile_index:
  assumes "0 \<le> q" "q \<le> 100" "0 < length vs" "length vs < 2 ^ 32"
  shows "percentile vs (Fin q) = Some (js_sort (\<lambda>a b. js_sub a b) vs ! rank_index q (length vs))"
proof -
  define n where "n = length vs"
  have n: "0 < n" "n < 2 ^ 32" using assms by (simp_all add: n_def)
  have "of_int 0 \<le> q / 100" "q / 100 \<le> of_int 1" using assms by simp_all
  from fl_between [OF this] have c: "0 \<le> fl (q / 100)" "fl (q / 100) \<le> 1" by simp_all
  have A: "js_div (Fin q) (Fin 100) = Fin (fl (q / 100))"
    using c by (simp add: rnd_cases)
  have "of_int 0 \<le> fl (q / 100) * of_nat n" using c by simp
  moreover have "fl (q / 100) * of_nat n \<le> of_int (int n)"
    using c mult_right_mono [of "fl (q / 100)" 1 "of_nat n"] by simp
  moreover have "\<bar>int n\<bar> \<le> 2 ^ 53" using n by simp
  ultimately have b: "of_int 0 \<le> fl (fl (q / 100) * of_nat n)"
    "fl (fl (q / 100) * of_nat n) \<le> of_int (int n)"
    using fl_between [of 0 "fl (q / 100) * of_nat n" "int n"] by simp_all
  define b where "b = fl (fl (q / 100) * of_nat n)"
  have b0: "0 \<le> b" "b \<le> of_nat n" using \<open>of_int 0 \<le> fl (fl (q / 100) * of_nat n)\<close>
      \<open>fl (fl (q / 100) * of_nat n) \<le> of_int (int n)\<close> by (simp_all add: b_def)
  have "b < 2 ^ 1024"
  proof -
    have "(of_nat n :: rat) < of_nat (2 ^ 32)" using n(2) by (simp only: of_nat_less_iff)
    then have "(of_nat n :: rat) < 2 ^ 32" by simp
    moreover have "(2::rat) ^ 32 < 2 ^ 1024" by simp
    ultimately show ?thesis using b0(2) by linarith
  qed
  then have B: "js_mul (Fin (fl (q / 100))) (num n) = Fin b"
    using b0 by (simp add: num_def rnd_cases b_def)
  have cb: "0 \<le> \<lceil>b\<rceil>" "\<lceil>b\<rceil> \<le> int n" using b0 by (simp_all add: ceiling_le_iff)
  have nb: "int n \<le> 4294967296" using n(2) by simp
  have "\<bar>\<lceil>b\<rceil> - 1\<bar> \<le> 9007199254740992" using cb nb by linarith
  then have "\<bar>\<lceil>b\<rceil> - 1\<bar> \<le> 2 ^ 53" by simp
  from rnd_of_int [OF this]
  have C: "js_sub (Math_ceil (Fin b)) (Fin 1) = Fin (of_int (\<lceil>b\<rceil> - 1))"
    by (simp add: js_sub_def)
  have "\<bar>int n - 1\<bar> \<le> 9007199254740992" using nb by linarith
  then have "\<bar>int n - 1\<bar> \<le> 2 ^ 53" by simp
  from rnd_of_int [OF this]
  have H: "js_sub (num n) (Fin 1) = Fin (of_int (int n - 1))"
    by (simp add: js_sub_def num_def)
  have M: "Math_max (Fin 0) (Math_min (Fin (of_int (int n - 1))) (Fin (of_int (\<lceil>b\<rceil> - 1))))
             = Fin (of_int (max 0 (min (int n - 1) (\<lceil>b\<rceil> - 1))))"
    by (rule max_min_int)
  have k: "rank_index q n = nat (max 0 (min (int n - 1) (\<lceil>b\<rceil> - 1)))"
    by (simp add: rank_index_def b_def)
  have kn: "nat (max 0 (min (int n - 1) (\<lceil>b\<rceil> - 1))) < n" using n(1) by linarith
  have "js_index (js_sort (\<lambda>a b. js_sub a b) vs) (Fin (of_int (max 0 (min (int n - 1) (\<lceil>b\<rceil> - 1)))))
          = Some (js_sort (\<lambda>a b. js_sub a b) vs ! rank_index q n)"
    using kn unfolding k js_index_def by (simp add: n_def)
  moreover have "percentile vs (Fin q) =
      js_index (js_sort (\<lambda>a b. js_sub a b) vs)
        (Math_max (Fin 0) (Math_min (js_sub (num n) (Fin 1))
           (js_sub (Math_ceil (js_mul (js_div (Fin q) (Fin 100)) (num n))) (Fin 1))))"
    using assms(3) unfolding percentile_def Let_def n_def by simp
  ultimately show ?thesis
    by (simp only: A B C H M n_def [symmetric])
qed







lemma nonneg_not_NaN: "nonneg v \<Longrightarrow> v \<noteq> NaN"
  by (auto simp: nonneg_def)







lemma between_nonneg: "between 0 hi v \<Longrightarrow> nonneg v"
  by (auto simp: between_def nonneg_def split: jsnum.splits)


























section \<open>Percentiles\<close>

lemma fl_pos_grid: "\<exists>k. fl_pos x = of_int k * 2 powi (- 1074)"
proof -
  define e where "e = max (ilog2 x) (- 1022)"
  have d: "0 \<le> e - 52 + 1074" by (simp add: e_def)
  have "e - 52 = (e - 52 + 1074) + (- 1074)" by simp
  then have "(2::rat) powi (e - 52) = 2 powi ((e - 52 + 1074) + (- 1074))" by (rule arg_cong)
  also have "\<dots> = 2 powi (e - 52 + 1074) * 2 powi (- 1074)" by (rule powi_split)
  also have "(2::rat) powi (e - 52 + 1074) = 2 ^ nat (e - 52 + 1074)" using d by (simp add: power_int_def)
  finally have "fl_pos x = of_int (round_even (x / 2 powi (e - 52)) * 2 ^ nat (e - 52 + 1074)) * 2 powi (- 1074)"
    by (simp add: fl_pos_def Let_def e_def)
  then show ?thesis by blast
qed

lemma fl_grid: "\<exists>k. fl x = of_int k * 2 powi (- 1074)"
proof -
  consider "x = 0" | "0 < x" | "x < 0" by linarith
  then show ?thesis
  proof cases
    case 1
    then show ?thesis by (intro exI [of _ 0]) simp
  next
    case 2
    then show ?thesis using fl_pos_grid [of x] by (simp add: fl_def)
  next
    case 3
    from fl_pos_grid [of "- x"] obtain k where "fl_pos (- x) = of_int k * 2 powi (- 1074)" by blast
    then have "fl x = of_int (- k) * 2 powi (- 1074)" using 3 by (simp add: fl_def)
    then show ?thesis by blast
  qed
qed

lemma fl_smallest: "fl (2 powi (- 1074)) = 2 powi (- 1074)"
  using fl_dyadic [of 1 "- 1074"] by simp

lemma double_diff_pos:
  assumes "fl a = a" "fl b = b" "a < b"
  shows "0 < fl (b - a)"
proof -
  from fl_grid [of a] fl_grid [of b] assms(1,2) obtain ka kb
    where k: "a = of_int ka * 2 powi (- 1074)" "b = of_int kb * 2 powi (- 1074)" by metis
  have g: "0 < (2::rat) powi (- 1074)" by (rule powi_pos2)
  from assms(3) k g have "(of_int ka :: rat) < of_int kb" by (simp add: mult_less_cancel_right)
  then have "ka + 1 \<le> kb" by simp
  then have "(of_int (ka + 1) :: rat) \<le> of_int kb" by (simp only: of_int_le_iff)
  then have "(of_int ka + 1) * (2::rat) powi (- 1074) \<le> of_int kb * 2 powi (- 1074)"
    using g by (simp add: mult_right_mono)
  then have "2 powi (- 1074) \<le> b - a" unfolding k by (simp add: algebra_simps)
  then have "fl (2 powi (- 1074)) \<le> fl (b - a)" by (rule fl_mono)
  then have "2 powi (- 1074) \<le> fl (b - a)" by (simp only: fl_smallest)
  with g show ?thesis by (rule less_le_trans)
qed

lemma cmp_doubles:
  assumes "is_double x" "is_double y"
  shows "js_gt (js_sub x y) (Fin 0) \<longleftrightarrow> fin_val y < fin_val x"
proof -
  from assms obtain a b where ab: "x = Fin a" "y = Fin b" "fl a = a" "fl b = b"
    by (auto simp: is_double_def split: jsnum.splits)
  show ?thesis
  proof (cases "b < a")
    case True
    from double_diff_pos [OF ab(4,3) this] show ?thesis
      using True by (auto simp: ab js_sub_def js_gt_def rnd_cases)
  next
    case False
    then have "a - b \<le> 0" by simp
    from fl_nonpos [OF this] show ?thesis
      using False by (auto simp: ab js_sub_def js_gt_def rnd_cases)
  qed
qed

lemma js_insert_insort:
  assumes "is_double x" "\<forall>y\<in>set ys. is_double y"
  shows "map fin_val (js_insert (\<lambda>a b. js_sub a b) x ys) = insort (fin_val x) (map fin_val ys)"
  using assms(2)
proof (induction ys)
  case Nil
  then show ?case by simp
next
  case (Cons y ys)
  then show ?case using cmp_doubles [OF assms(1), of y] by auto
qed

lemma js_sort_sort:
  assumes "\<forall>v\<in>set vs. is_double v"
  shows "map fin_val (js_sort (\<lambda>a b. js_sub a b) vs) = sort (map fin_val vs)"
  using assms
proof (induction vs)
  case Nil
  then show ?case by (simp add: js_sort_def)
next
  case (Cons v vs)
  then have "map fin_val (js_sort (\<lambda>a b. js_sub a b) vs) = sort (map fin_val vs)" by simp
  moreover have "\<forall>y\<in>set (js_sort (\<lambda>a b. js_sub a b) vs). is_double y" using Cons.prems by simp
  ultimately show ?case
    using js_insert_insort [of v "js_sort (\<lambda>a b. js_sub a b) vs"] Cons.prems
    by (simp add: js_sort_def sort_key_def)
qed

lemma double_Fin: "is_double v \<Longrightarrow> v = Fin (fin_val v)"
  by (auto simp: is_double_def split: jsnum.splits)

lemma js_sort_nth:
  assumes "\<forall>v\<in>set vs. is_double v" "k < length vs"
  shows "js_sort (\<lambda>a b. js_sub a b) vs ! k = Fin (sort (map fin_val vs) ! k)"
proof -
  have "js_sort (\<lambda>a b. js_sub a b) vs ! k \<in> set (js_sort (\<lambda>a b. js_sub a b) vs)"
    using assms(2) by (intro nth_mem) simp
  then have "is_double (js_sort (\<lambda>a b. js_sub a b) vs ! k)" using assms(1) by simp
  from double_Fin [OF this]
  have "js_sort (\<lambda>a b. js_sub a b) vs ! k = Fin (map fin_val (js_sort (\<lambda>a b. js_sub a b) vs) ! k)"
    using assms(2) by simp
  then show ?thesis by (simp only: js_sort_sort [OF assms(1)])
qed

lemma fl_9_10: "fl (9 / 10) = 8106479329266893 / 9007199254740992"
  by code_simp

lemma fl_19_20: "fl (19 / 20) = 8556839292003942 / 9007199254740992"
  by code_simp

lemma round_even_add_small: "0 \<le> d \<Longrightarrow> d < 1 / 2 \<Longrightarrow> round_even (of_int M + d) = M"
proof -
  assume d: "0 \<le> d" "d < 1 / 2"
  then have f: "\<lfloor>of_int M + d\<rfloor> = M" by linarith
  show ?thesis unfolding round_even_def Let_def f using d by simp
qed

lemma fl_above_nat:
  assumes "0 < n" "n < 2 ^ 32"
  shows "fl (of_nat n + of_nat n / 2 ^ 54) = of_nat n"
proof -
  define N :: rat where "N = of_nat n"
  define x :: rat where "x = N + N / 2 ^ 54"
  have Npos: "0 < N" using assms(1) by (simp add: N_def)
  have "(of_nat n :: rat) < of_nat (2 ^ 32)" using assms(2) by (simp only: of_nat_less_iff)
  then have N32: "N < 2 ^ 32" by (simp add: N_def)
  have n53: "n \<le> 2 ^ 53" using assms(2) by simp
  define e where "e = ilog2 N"
  note eb = ilog2_of_nat_bounds(1,2) [OF assms(1) n53, folded N_def e_def]
  from ilog2_bounds [OF Npos] have b: "2 powi e \<le> N" "N < 2 powi (e + 1)" by (simp_all add: e_def)
  have e52: "e \<le> 52"
  proof (rule ccontr)
    assume "\<not> e \<le> 52"
    then have "(2::rat) powi 53 \<le> 2 powi e" by (intro powi_mono2) simp
    with b(1) N32 show False by simp
  qed
  have p: "(2::rat) powi (e + 1) = of_nat (2 ^ nat (e + 1))" using eb by (simp add: power_int_def)
  from b(2) have "(of_nat n :: rat) < of_nat (2 ^ nat (e + 1))" unfolding p N_def .
  then have "n < 2 ^ nat (e + 1)" by (simp only: of_nat_less_iff)
  then have "Suc n \<le> 2 ^ nat (e + 1)" by simp
  then have "(of_nat (Suc n) :: rat) \<le> of_nat (2 ^ nat (e + 1))" by (simp only: of_nat_le_iff)
  then have N1: "N + 1 \<le> 2 powi (e + 1)" unfolding p by (simp add: N_def)
  have small: "N / 2 ^ 54 < 1" using N32 Npos by simp
  have xpos: "0 < x" using Npos by (simp add: x_def)
  have "2 powi e \<le> x" using b(1) Npos by (simp add: x_def)
  moreover have "x < 2 powi (e + 1)" using N1 small by (simp add: x_def)
  ultimately have ex: "ilog2 x = e" using xpos by (intro ilog2_unique)
  have me: "max (ilog2 x) (- 1022) = e" using ex eb by simp
  define M where "M = int n * 2 ^ nat (52 - e)"
  have q: "2 powi (52 - e) = (2::rat) ^ nat (52 - e)" using e52 by (simp add: power_int_def)
  have "N / 2 powi (e - 52) = N * 2 powi (52 - e)"
    using power_int_minus [of "2::rat" "e - 52"] by (simp add: field_simps)
  then have NM: "N / 2 powi (e - 52) = of_int M" by (simp add: q M_def N_def)
  have "of_int M < (2::rat) powi (e + 1) / 2 powi (e - 52)"
    unfolding NM [symmetric] using b(2) by (simp add: divide_strict_right_mono powi_pos2)
  then have M53: "(of_int M :: rat) < 2 ^ 53" by (simp add: powi_53_quot)
  have M0: "0 \<le> (of_int M :: rat)" by (simp add: M_def)
  have "x / 2 powi (e - 52) = N / 2 powi (e - 52) + N / 2 powi (e - 52) / 2 ^ 54"
    by (simp add: x_def add_divide_distrib)
  then have xu: "x / 2 powi (e - 52) = of_int M + of_int M / 2 ^ 54" by (simp only: NM)
  have "round_even (of_int M + of_int M / 2 ^ 54) = M"
    using M0 M53 by (intro round_even_add_small) simp_all
  then have "fl_pos x = of_int M * 2 powi (e - 52)"
    by (simp add: fl_pos_def Let_def me xu)
  also have "\<dots> = N" using NM [symmetric] by (simp add: powi_pos2 less_imp_neq [OF powi_pos2, THEN not_sym])
  finally show ?thesis using xpos by (simp add: fl_def x_def N_def)
qed

lemma fl_int_minus_half:
  assumes "1 \<le> a" "a \<le> 2 ^ 32"
  shows "fl (of_int a - 1 / 2) = of_int a - 1 / 2"
proof -
  have k: "0 < nat (2 * a - 1)" "nat (2 * a - 1) \<le> 2 ^ 53" using assms by simp_all
  have "(of_nat (nat (2 * a - 1)) :: rat) * 2 powi (- 1) = of_int a - 1 / 2"
    using assms(1) by (simp add: power_int_minus field_simps)
  with fl_dyadic [OF k, of "- 1"] show ?thesis by (simp only:)
qed

lemma fl_int_plus_32nd:
  assumes "0 \<le> a" "a \<le> 2 ^ 32"
  shows "fl (of_int a + 1 / 32) = of_int a + 1 / 32"
proof -
  have k: "0 < nat (32 * a + 1)" "nat (32 * a + 1) \<le> 2 ^ 53" using assms by simp_all
  have "(of_nat (nat (32 * a + 1)) :: rat) * 2 powi (- 5) = of_int a + 1 / 32"
    using assms(1) by (simp add: power_int_minus field_simps)
  with fl_dyadic [OF k, of "- 5"] show ?thesis by (simp only:)
qed

lemma ceil_fl_mul:
  fixes r c :: rat and s :: int and n :: nat
  assumes n: "0 < n" "n < 2 ^ 32"
    and r: "r = of_int s / 20" "0 < r" "r \<le> 1"
    and up: "c \<le> r + r / 2 ^ 54"
    and lo: "r - r / 2 ^ 53 \<le> c"
  shows "\<lceil>fl (c * of_nat n)\<rceil> = \<lceil>r * of_nat n\<rceil>"
proof -
  define N :: rat where "N = of_nat n"
  have "(of_nat n :: rat) < of_nat (2 ^ 32)" using n(2) by (simp only: of_nat_less_iff)
  then have N: "1 \<le> N" "N < 2 ^ 32" using n(1) by (simp_all add: N_def)
  define y where "y = r * N"
  have y: "0 < y" "y \<le> N" using r(2,3) N(1) by (simp_all add: y_def mult_left_le_one_le)
  have ylt: "y < 2 ^ 32" using y(2) N(2) by simp
  have cu: "c * N \<le> y + y / 2 ^ 54"
  proof -
    have "c * N \<le> (r + r / 2 ^ 54) * N" using up N(1) by (intro mult_right_mono) simp_all
    then show ?thesis by (simp add: y_def algebra_simps)
  qed
  have cl: "y - y / 2 ^ 53 \<le> c * N"
  proof -
    have "(r - r / 2 ^ 53) * N \<le> c * N" using lo N(1) by (intro mult_right_mono) simp_all
    then show ?thesis by (simp add: y_def algebra_simps)
  qed
  define t where "t = s * int n"
  define a where "a = t div 20"
  define \<rho> where "\<rho> = t mod 20"
  have t: "t = 20 * a + \<rho>" "0 \<le> \<rho>" "\<rho> < 20" by (simp_all add: a_def \<rho>_def)
  have yt: "y = of_int t / 20" by (simp add: y_def r(1) N_def t_def)
  have ya: "y = of_int a + of_int \<rho> / 20" unfolding yt t(1) by simp
  show ?thesis
  proof (cases "\<rho> = 0")
    case True
    then have ya0: "y = of_int a" using ya by simp
    with y(1) have a1: "1 \<le> a" by simp
    from ya0 ylt have "(of_int a :: rat) < of_int (2 ^ 32)" by simp
    then have a32: "a < 2 ^ 32" by (simp only: of_int_less_iff)
    have an: "0 < nat a" "nat a < 2 ^ 32" using a1 a32 by simp_all
    have na: "(of_nat (nat a) :: rat) = of_int a" using a1 by simp
    have "c * N \<le> of_nat (nat a) + of_nat (nat a) / 2 ^ 54"
      using cu unfolding ya0 na .
    then have "fl (c * N) \<le> fl (of_nat (nat a) + of_nat (nat a) / 2 ^ 54)" by (rule fl_mono)
    then have "fl (c * N) \<le> of_nat (nat a)" by (simp only: fl_above_nat [OF an])
    then have ub: "fl (c * N) \<le> of_int a" by (simp only: na)
    have "y / 2 ^ 53 \<le> 1 / 2" using ylt y(1) by simp
    then have "of_int a - 1 / 2 \<le> c * N" using cl by (simp add: ya0)
    then have "fl (of_int a - 1 / 2) \<le> fl (c * N)" by (rule fl_mono)
    moreover have "a \<le> 2 ^ 32" using a32 by simp
    ultimately have lb: "of_int a - 1 / 2 \<le> fl (c * N)"
      using a1 by (simp only: fl_int_minus_half)
    have "\<lceil>fl (c * N)\<rceil> = a" using ub lb by (intro ceiling_unique) simp_all
    then show ?thesis by (simp add: N_def [symmetric] y_def [symmetric] ya0)
  next
    case False
    with t have \<rho>: "1 \<le> \<rho>" "\<rho> \<le> 19" by simp_all
    then have fr: "(1::rat) / 20 \<le> of_int \<rho> / 20" "(of_int \<rho> :: rat) / 20 \<le> 19 / 20" by simp_all
    have a0: "0 \<le> a"
    proof (rule ccontr)
      assume "\<not> 0 \<le> a"
      then have "a \<le> - 1" by simp
      then have "(of_int a :: rat) \<le> of_int (- 1)" by (simp only: of_int_le_iff)
      with fr(2) y(1) show False by (simp add: ya)
    qed
    have "(of_int a :: rat) < of_int (2 ^ 32)" using ylt fr(1) by (simp add: ya)
    then have a32: "a < 2 ^ 32" by (simp only: of_int_less_iff)
    have small: "y / 2 ^ 54 \<le> 1 / 2 ^ 22" "y / 2 ^ 53 \<le> 1 / 2 ^ 21" using ylt y(1) by simp_all
    have yle: "y \<le> of_int a + 19 / 20" using fr(2) by (simp add: ya)
    have yge: "of_int a + 1 / 20 \<le> y" using fr(1) by (simp add: ya)
    have num1: "(19::rat) / 20 + 1 / 2 ^ 22 \<le> 1" by simp
    have num2: "(1::rat) / 32 + 1 / 2 ^ 21 \<le> 1 / 20" by simp
    have "c * N \<le> of_int a + 1" using cu small(1) yle num1 by linarith
    then have "c * N \<le> of_int (a + 1)" by simp
    moreover have "\<bar>a + 1\<bar> \<le> 2 ^ 53" using a0 a32 by simp
    ultimately have ub: "fl (c * N) \<le> of_int (a + 1)"
      using fl_mono [of "c * N" "of_int (a + 1)"] fl_of_int [of "a + 1"] by simp
    have "of_int a + 1 / 32 \<le> c * N" using cl small(2) yge num2 by linarith
    then have "fl (of_int a + 1 / 32) \<le> fl (c * N)" by (rule fl_mono)
    moreover have "a \<le> 2 ^ 32" using a32 by simp
    ultimately have lb: "of_int a + 1 / 32 \<le> fl (c * N)" using a0 by (simp only: fl_int_plus_32nd)
    have 1: "\<lceil>fl (c * N)\<rceil> = a + 1" using ub lb by (intro ceiling_unique) simp_all
    have 2: "\<lceil>y\<rceil> = a + 1" using yle yge by (intro ceiling_unique) simp_all
    from 1 2 show ?thesis by (simp add: N_def [symmetric] y_def [symmetric])
  qed
qed

lemma rank_index_exact:
  assumes "0 < n" "n < 2 ^ 32"
  shows "rank_index 50 n = nearest_rank 50 n"
    and "rank_index 90 n = nearest_rank 90 n"
    and "rank_index 95 n = nearest_rank 95 n"
proof -
  have "\<lceil>fl (fl (1 / 2) * of_nat n)\<rceil> = \<lceil>(1 / 2 :: rat) * of_nat n\<rceil>"
    using assms by (intro ceil_fl_mul [where s = 10]) (simp_all add: fl_half)
  then show "rank_index 50 n = nearest_rank 50 n" by (simp add: rank_index_def nearest_rank_def)
  have "\<lceil>fl (fl (9 / 10) * of_nat n)\<rceil> = \<lceil>(9 / 10 :: rat) * of_nat n\<rceil>"
    using assms by (intro ceil_fl_mul [where s = 18]) (simp_all add: fl_9_10)
  then show "rank_index 90 n = nearest_rank 90 n" by (simp add: rank_index_def nearest_rank_def)
  have "\<lceil>fl (fl (19 / 20) * of_nat n)\<rceil> = \<lceil>(19 / 20 :: rat) * of_nat n\<rceil>"
    using assms by (intro ceil_fl_mul [where s = 19]) (simp_all add: fl_19_20)
  then show "rank_index 95 n = nearest_rank 95 n" by (simp add: rank_index_def nearest_rank_def)
qed

lemma nearest_rank_less: "0 < n \<Longrightarrow> nearest_rank q n < n"
  by (simp add: nearest_rank_def)

lemma nearest_rank_mono: "q \<le> q' \<Longrightarrow> nearest_rank q n \<le> nearest_rank q' n"
proof -
  assume "q \<le> q'"
  then have "q / 100 * of_nat n \<le> q' / 100 * of_nat n" by (simp add: mult_right_mono)
  then have "\<lceil>q / 100 * of_nat n\<rceil> \<le> \<lceil>q' / 100 * of_nat n\<rceil>" by (rule ceiling_mono)
  then show ?thesis unfolding nearest_rank_def by (intro nat_mono) linarith
qed

lemma percentile_exact:
  assumes "vs \<noteq> []" "length vs < 2 ^ 32" "\<forall>v\<in>set vs. is_double v"
  shows "percentile vs (Fin 50) = Some (Fin (sort (map fin_val vs) ! nearest_rank 50 (length vs)))"
    and "percentile vs (Fin 90) = Some (Fin (sort (map fin_val vs) ! nearest_rank 90 (length vs)))"
    and "percentile vs (Fin 95) = Some (Fin (sort (map fin_val vs) ! nearest_rank 95 (length vs)))"
proof -
  have n: "0 < length vs" using assms(1) by simp
  note ex = rank_index_exact [OF n assms(2)]
  note lt = nearest_rank_less [OF n]
  show "percentile vs (Fin 50) = Some (Fin (sort (map fin_val vs) ! nearest_rank 50 (length vs)))"
    using percentile_index [OF _ _ n assms(2), of 50] js_sort_nth [OF assms(3) lt [of 50]]
    by (simp add: ex(1))
  show "percentile vs (Fin 90) = Some (Fin (sort (map fin_val vs) ! nearest_rank 90 (length vs)))"
    using percentile_index [OF _ _ n assms(2), of 90] js_sort_nth [OF assms(3) lt [of 90]]
    by (simp add: ex(2))
  show "percentile vs (Fin 95) = Some (Fin (sort (map fin_val vs) ! nearest_rank 95 (length vs)))"
    using percentile_index [OF _ _ n assms(2), of 95] js_sort_nth [OF assms(3) lt [of 95]]
    by (simp add: ex(3))
qed

lemma percentile_single:
  assumes "0 \<le> q" "q \<le> 100"
  shows "percentile [v] (Fin q) = Some v"
  using percentile_index [OF assms, of "[v]"] rank_index_less [of 1 q]
  by (simp add: js_sort_def)

lemma is_double_of_int: "\<bar>i\<bar> \<le> 2 ^ 53 \<Longrightarrow> is_double (Fin (of_int i))"
  using int_bound_rat [of i] by (simp add: is_double_def fl_of_int abs_less_iff)

lemma is_double_numeral: "numeral k \<le> (9007199254740992::int) \<Longrightarrow> is_double (Fin (numeral k))"
  using is_double_of_int [of "numeral k"] by simp


text \<open>
  Claim C3: of a non-empty series of doubles (an array has fewer than \<open>2^32\<close> elements)
  \<open>percentile\<close> returns, for 50, 90 and 95, the element of the ascending series at the
  nearest-rank index, the least integer not below \<open>(p/100) n\<close> minus one, kept within
  0 and \<open>n - 1\<close>: the rounding of the double arithmetic never changes that index. Hence
  p50 is at most p90 and p90 at most p95; and of a one-element series the three are that
  element.
\<close>

theorem percentile_nearest_rank:
  assumes "vs \<noteq> []" "length vs < 2 ^ 32" "\<forall>v\<in>set vs. is_double v"
  shows "percentile vs (Fin 50) = Some (Fin (sort (map fin_val vs) ! nearest_rank 50 (length vs)))
         \<and> percentile vs (Fin 90) = Some (Fin (sort (map fin_val vs) ! nearest_rank 90 (length vs)))
         \<and> percentile vs (Fin 95) = Some (Fin (sort (map fin_val vs) ! nearest_rank 95 (length vs)))
         \<and> sort (map fin_val vs) ! nearest_rank 50 (length vs)
             \<le> sort (map fin_val vs) ! nearest_rank 90 (length vs)
         \<and> sort (map fin_val vs) ! nearest_rank 90 (length vs)
             \<le> sort (map fin_val vs) ! nearest_rank 95 (length vs)
         \<and> percentile [w] (Fin 50) = Some w
         \<and> percentile [w] (Fin 90) = Some w
         \<and> percentile [w] (Fin 95) = Some w"
proof -
  have n: "0 < length vs" using assms(1) by simp
  have "nearest_rank 50 (length vs) \<le> nearest_rank 90 (length vs)"
    by (rule nearest_rank_mono) simp
  moreover have "nearest_rank 90 (length vs) < length (sort (map fin_val vs))"
    using nearest_rank_less [OF n, of 90] by simp
  ultimately have a: "sort (map fin_val vs) ! nearest_rank 50 (length vs)
             \<le> sort (map fin_val vs) ! nearest_rank 90 (length vs)"
    by (intro sorted_nth_mono) simp_all
  have "nearest_rank 90 (length vs) \<le> nearest_rank 95 (length vs)"
    by (rule nearest_rank_mono) simp
  moreover have "nearest_rank 95 (length vs) < length (sort (map fin_val vs))"
    using nearest_rank_less [OF n, of 95] by simp
  ultimately have b: "sort (map fin_val vs) ! nearest_rank 90 (length vs)
             \<le> sort (map fin_val vs) ! nearest_rank 95 (length vs)"
    by (intro sorted_nth_mono) simp_all
  from percentile_exact [OF assms] a b percentile_single [of 50 w] percentile_single [of 90 w]
    percentile_single [of 95 w]
  show ?thesis by simp
qed

theorem percentile_nearest_rank_witness:
  "[Fin 300, Fin 100, Fin 200] \<noteq> [] \<and> length [Fin 300, Fin 100, Fin 200] < (2::nat) ^ 32
   \<and> is_double (Fin 300) \<and> is_double (Fin 100) \<and> is_double (Fin 200)
   \<and> percentile [Fin 300, Fin 100, Fin 200] (Fin 50) = Some (Fin 200)
   \<and> percentile [Fin 300, Fin 100, Fin 200] (Fin 90) = Some (Fin 300)
   \<and> percentile [Fin 300, Fin 100, Fin 200] (Fin 95) = Some (Fin 300)
   \<and> percentile [Fin 300] (Fin 50) = Some (Fin 300)"
proof -
  have d: "is_double (Fin 300)" "is_double (Fin 100)" "is_double (Fin 200)"
    by (simp_all add: is_double_numeral)
  then have a: "\<forall>v\<in>set [Fin 300, Fin 100, Fin 200]. is_double v" by simp
  have l: "[Fin 300, Fin 100, Fin 200] \<noteq> []" "length [Fin 300, Fin 100, Fin 200] < (2::nat) ^ 32"
    by simp_all
  have c: "\<lceil>(3::rat) / 2\<rceil> = 2" by linarith
  from percentile_nearest_rank [OF l a, of "Fin 300"] d show ?thesis
    by (simp add: nearest_rank_def c)
qed

end
